theory Spec2Isabelle
  imports Main
begin

section \<open>Data model of the record manager\<close>

text \<open>
  The source is the class \<open>RecordManager\<close> with its types \<open>FileStatus\<close>, \<open>Action\<close>,
  \<open>LogEntry\<close> and \<open>FileRecord\<close>. The string union \<open>FileStatus\<close> and the string enum
  \<open>Action\<close> become datatypes with one constructor per member. The values of the enum
  \<open>Action\<close> are 41 pairwise different, non-empty strings, none of which reads as an array
  index: an \<open>Action\<close> is therefore always truthy, two members never share a property key,
  and the keys of the object \<open>logs\<close> are enumerated in the order of their first insertion.
  The member \<open>APPEND\<close> is written \<open>APPEND_action\<close>, since generated code reserves the
  plain name.
\<close>

datatype FileStatus =
  St_queued | St_processing | St_completed | St_error | St_bypassed

datatype Action =
    CLEANUP | CLEANUP_DONE
  | RENAME | RENAME_DONE
  | EXTRACT | EXTRACT_DONE
  | MOVING_ATTACHMENT | MOVING_ATTACHEMENT_DONE
  | CLASSIFY | CLASSIFY_DONE
  | TAGGING | TAGGING_DONE
  | APPLYING_TAGS | APPLYING_TAGS_DONE
  | RECOMMEND_NAME | RECOMMEND_NAME_DONE
  | CONTAINER
  | APPEND_action | APPEND_DONE
  | ERROR_APPEND | ERROR_COMPLETE | ERROR_VALIDATE | ERROR_CONTAINER
  | CONTAINER_DONE
  | APPLYING_NAME | APPLYING_NAME_DONE
  | FORMATTING | FORMATTING_DONE
  | MOVING | MOVING_DONE
  | COMPLETED
  | VALIDATE | VALIDATE_DONE
  | ERROR_CLEANUP | ERROR_RENAME | ERROR_EXTRACT | ERROR_MOVING_ATTACHMENT
  | ERROR_CLASSIFY | ERROR_TAGGING | ERROR_FORMATTING | ERROR_MOVING

text \<open>The string value of each member, as the enum declares it.\<close>

fun Action_value :: "Action \<Rightarrow> string" where
  "Action_value CLEANUP = ''Cleaning up file...''"
| "Action_value CLEANUP_DONE = ''File cleaned up''"
| "Action_value RENAME = ''Renaming file...''"
| "Action_value RENAME_DONE = ''File renamed''"
| "Action_value EXTRACT = ''Extracting content...''"
| "Action_value EXTRACT_DONE = ''Content extracted''"
| "Action_value MOVING_ATTACHMENT = ''Moving attachments...''"
| "Action_value MOVING_ATTACHEMENT_DONE = ''Attachments moved''"
| "Action_value CLASSIFY = ''Analyzing document type...''"
| "Action_value CLASSIFY_DONE = ''Document type identified''"
| "Action_value TAGGING = ''Generating tags...''"
| "Action_value TAGGING_DONE = ''Tags generated''"
| "Action_value APPLYING_TAGS = ''Applying tags...''"
| "Action_value APPLYING_TAGS_DONE = ''Tags applied''"
| "Action_value RECOMMEND_NAME = ''Generating file name...''"
| "Action_value RECOMMEND_NAME_DONE = ''File name generated''"
| "Action_value CONTAINER = ''Creating document container...''"
| "Action_value APPEND_action = ''Appending content...''"
| "Action_value APPEND_DONE = ''Content appended''"
| "Action_value ERROR_APPEND = ''Failed to append content''"
| "Action_value ERROR_COMPLETE = ''Processing failed''"
| "Action_value ERROR_VALIDATE = ''Failed to validate document''"
| "Action_value ERROR_CONTAINER = ''Failed to create container''"
| "Action_value CONTAINER_DONE = ''Container created''"
| "Action_value APPLYING_NAME = ''Applying new name...''"
| "Action_value APPLYING_NAME_DONE = ''New name applied''"
| "Action_value FORMATTING = ''Formatting content...''"
| "Action_value FORMATTING_DONE = ''Content formatted''"
| "Action_value MOVING = ''Moving to final location...''"
| "Action_value MOVING_DONE = ''File moved successfully''"
| "Action_value COMPLETED = ''Processing completed''"
| "Action_value VALIDATE = ''Validating document...''"
| "Action_value VALIDATE_DONE = ''Document validated''"
| "Action_value ERROR_CLEANUP = ''Failed to clean up file''"
| "Action_value ERROR_RENAME = ''Failed to rename file''"
| "Action_value ERROR_EXTRACT = ''Failed to extract content''"
| "Action_value ERROR_MOVING_ATTACHMENT = ''Failed to move attachments''"
| "Action_value ERROR_CLASSIFY = ''Failed to analyze document type''"
| "Action_value ERROR_TAGGING = ''Failed to generate tags''"
| "Action_value ERROR_FORMATTING = ''Failed to format content''"
| "Action_value ERROR_MOVING = ''Failed to move file''"

text \<open>
  A timestamp is written as \<open>moment().format("YYYY-MM-DD HH:mm:ss")\<close> and read back as
  \<open>moment(log.timestamp)\<close>. The library \<open>moment\<close> is not part of the repository; the
  model stores the wall-clock reading in whole seconds that the formatted text denotes, and
  the clock's reading is an argument \<open>now\<close> of each operation that reads the clock.
  \<open>isAfter\<close> is the strict order of two readings.
\<close>

type_synonym Timestamp = nat

definition isAfter :: "Timestamp \<Rightarrow> Timestamp \<Rightarrow> bool" where
  "isAfter a b = (b < a)"

text \<open>The object stored under \<open>error\<close> in a log entry.\<close>

record ErrorInfo =
  message :: string
  stack :: "string option"
  action :: Action

record LogEntry =
  timestamp :: Timestamp
  completed :: bool
  error :: "ErrorInfo option"

text \<open>\<open>TFile\<close> comes from the host application; it is an opaque handle.\<close>

datatype TFile = TFile string

text \<open>
  \<open>logs: Record<Action, LogEntry>\<close> is a plain object. Its entries are kept as a list of
  pairs in the order of \<open>Object.entries\<close>: a key is listed where it was first inserted,
  and an assignment to a key that is present keeps its place. An object has one entry per
  key, which is the predicate \<open>logs_ok\<close>.
\<close>

type_synonym Logs = "(Action \<times> LogEntry) list"

text \<open>
  \<open>tags: string[]\<close> holds an array object. \<open>setTags\<close> stores the array it is passed
  (\<open>record.tags = tags\<close>) and \<open>addTag\<close> pushes onto the stored array in place, so the
  same array can be reached from the caller and from several records. The arrays therefore
  live in a store, a list of arrays, and the field holds a reference: the position of the
  array in the store.
\<close>

type_synonym ArrayRef = nat

record FileRecord =
  id_rec :: string
  tags :: ArrayRef
  classification :: "string option"
  formatted :: bool
  newPath :: "string option"
  newName :: "string option"
  originalName :: string
  logs :: Logs
  status :: FileStatus
  file_rec :: "TFile option"

text \<open>
  \<open>records: Map<string, FileRecord>\<close>. Only \<open>startTracking\<close> adds a key; every other
  method fetches the record object with \<open>records.get\<close> and mutates it in place, which
  the model writes as an update of the map at that key.
\<close>

type_synonym Records = "string \<rightharpoonup> FileRecord"

text \<open>
  The state a call can see or change: the map of the manager and the store of tag arrays.
  The store holds the arrays made by \<open>startTracking\<close> and the arrays of the caller.
  Methods that neither read nor change an array are functions on the map alone.
\<close>

record World =
  records :: Records
  arrays :: "string list list"

text \<open>A newly constructed manager (\<open>new Map()\<close>) beside the arrays the caller holds.\<close>

definition init :: "string list list \<Rightarrow> World" where
  "init hp = \<lparr>records = Map.empty, arrays = hp\<rparr>"

text \<open>\<open>getRecord(hash)?.tags\<close>: the contents of the array the record refers to.\<close>

definition getTags :: "World \<Rightarrow> string \<Rightarrow> string list option" where
  "getTags w hash =
     (case records w hash of None \<Rightarrow> None | Some record \<Rightarrow> Some (arrays w ! tags record))"

definition logs_ok :: "Logs \<Rightarrow> bool" where
  "logs_ok lg = distinct (map fst lg)"

text \<open>\<open>logs[k]\<close>: the entry under a key, if there is one.\<close>

definition logs_get :: "Logs \<Rightarrow> Action \<Rightarrow> LogEntry option" where
  "logs_get lg k = map_of lg k"

text \<open>\<open>logs[k] = v\<close>: replaces the entry in place, or appends a new key.\<close>

fun logs_set :: "Action \<Rightarrow> LogEntry \<Rightarrow> Logs \<Rightarrow> Logs" where
  "logs_set k v [] = [(k, v)]"
| "logs_set k v (p # ps) = (if fst p = k then (k, v) # ps else p # logs_set k v ps)"

text \<open>The log object of the record of \<open>hash\<close>, if there is one, has one entry per key.\<close>

definition record_logs_ok :: "Records \<Rightarrow> string \<Rightarrow> bool" where
  "record_logs_ok s hash = (case s hash of None \<Rightarrow> True | Some record \<Rightarrow> logs_ok (logs record))"

section \<open>Operations\<close>

text \<open>
  \<open>startTracking\<close>. The literal \<open>tags: []\<close> makes a new, empty array: it is appended to
  the store and the record refers to it.
\<close>

definition startTracking :: "string \<Rightarrow> string \<Rightarrow> World \<Rightarrow> string \<times> World" where
  "startTracking hash originalName' w =
     (if records w hash = None
      then (hash,
            \<lparr> records = (records w)(hash \<mapsto>
                \<lparr> id_rec = hash, tags = length (arrays w), classification = None,
                  formatted = False, newPath = None, newName = None,
                  originalName = originalName', logs = [], status = St_queued,
                  file_rec = None \<rparr>),
              arrays = arrays w @ [[]] \<rparr>)
      else (hash, w))"

definition setFile :: "string \<Rightarrow> TFile \<Rightarrow> Records \<Rightarrow> Records" where
  "setFile hash f s =
     (case s hash of None \<Rightarrow> s | Some record \<Rightarrow> s(hash \<mapsto> record\<lparr>file_rec := Some f\<rparr>))"

definition setStatus :: "string \<Rightarrow> FileStatus \<Rightarrow> Records \<Rightarrow> Records" where
  "setStatus hash st s =
     (case s hash of None \<Rightarrow> s | Some record \<Rightarrow> s(hash \<mapsto> record\<lparr>status := st\<rparr>))"

text \<open>
  The static table \<open>reverseMap\<close> of \<open>getBaseAction\<close>: eleven "done" members have a base
  action, every other member has none.
\<close>

fun getBaseAction :: "Action \<Rightarrow> Action option" where
  "getBaseAction CLEANUP_DONE = Some CLEANUP"
| "getBaseAction RENAME_DONE = Some RENAME"
| "getBaseAction EXTRACT_DONE = Some EXTRACT"
| "getBaseAction MOVING_ATTACHEMENT_DONE = Some MOVING_ATTACHMENT"
| "getBaseAction CLASSIFY_DONE = Some CLASSIFY"
| "getBaseAction TAGGING_DONE = Some TAGGING"
| "getBaseAction APPLYING_TAGS_DONE = Some APPLYING_TAGS"
| "getBaseAction RECOMMEND_NAME_DONE = Some RECOMMEND_NAME"
| "getBaseAction APPLYING_NAME_DONE = Some APPLYING_NAME"
| "getBaseAction FORMATTING_DONE = Some FORMATTING"
| "getBaseAction MOVING_DONE = Some MOVING"
| "getBaseAction _ = None"

text \<open>
  \<open>addAction\<close>. With \<open>completed\<close> set, a base action that has an entry gets its
  \<open>completed\<close> flag set and the method returns; in every other case the entry of \<open>step\<close>
  is assigned a new object without an \<open>error\<close> property.
\<close>

definition addAction :: "string \<Rightarrow> Action \<Rightarrow> bool \<Rightarrow> Timestamp \<Rightarrow> Records \<Rightarrow> Records" where
  "addAction hash step completed' now s =
     (case s hash of
        None \<Rightarrow> s
      | Some record \<Rightarrow>
          (let fresh = s(hash \<mapsto> record\<lparr>logs :=
                         logs_set step \<lparr>timestamp = now, completed = completed', error = None\<rparr>
                           (logs record)\<rparr>)
           in if completed' then
                (case getBaseAction step of
                   None \<Rightarrow> fresh
                 | Some baseAction \<Rightarrow>
                     (case logs_get (logs record) baseAction of
                        None \<Rightarrow> fresh
                      | Some entry \<Rightarrow>
                          s(hash \<mapsto> record\<lparr>logs :=
                              logs_set baseAction (entry\<lparr>completed := True\<rparr>) (logs record)\<rparr>)))
              else fresh))"

text \<open>
  \<open>addTag\<close>: \<open>record.tags.includes(tag)\<close> reads the array the record refers to, and
  \<open>record.tags.push(tag)\<close> changes that array in the store; the record itself is not
  changed. Every holder of the same reference sees the new element.
\<close>

definition addTag :: "string \<Rightarrow> string \<Rightarrow> World \<Rightarrow> World" where
  "addTag hash tag w =
     (case records w hash of
        None \<Rightarrow> w
      | Some record \<Rightarrow>
          (if tag \<notin> set (arrays w ! tags record)
           then w\<lparr>arrays := (arrays w)[tags record := arrays w ! tags record @ [tag]]\<rparr>
           else w))"

text \<open>\<open>setTags\<close>: \<open>record.tags = tags\<close> stores the reference it is passed; no array is copied.\<close>

definition setTags :: "string \<Rightarrow> ArrayRef \<Rightarrow> Records \<Rightarrow> Records" where
  "setTags hash tags' s =
     (case s hash of None \<Rightarrow> s | Some record \<Rightarrow> s(hash \<mapsto> record\<lparr>tags := tags'\<rparr>))"

definition setClassification :: "string \<Rightarrow> string \<Rightarrow> Records \<Rightarrow> Records" where
  "setClassification hash c s =
     (case s hash of None \<Rightarrow> s
      | Some record \<Rightarrow> s(hash \<mapsto> record\<lparr>classification := Some c\<rparr>))"

definition setFormatted :: "string \<Rightarrow> bool \<Rightarrow> Records \<Rightarrow> Records" where
  "setFormatted hash b s =
     (case s hash of None \<Rightarrow> s | Some record \<Rightarrow> s(hash \<mapsto> record\<lparr>formatted := b\<rparr>))"

definition setNewPath :: "string \<Rightarrow> string \<Rightarrow> Records \<Rightarrow> Records" where
  "setNewPath hash p s =
     (case s hash of None \<Rightarrow> s | Some record \<Rightarrow> s(hash \<mapsto> record\<lparr>newPath := Some p\<rparr>))"

definition setNewName :: "string \<Rightarrow> string \<Rightarrow> Records \<Rightarrow> Records" where
  "setNewName hash n s =
     (case s hash of None \<Rightarrow> s | Some record \<Rightarrow> s(hash \<mapsto> record\<lparr>newName := Some n\<rparr>))"

definition getRecord :: "Records \<Rightarrow> string \<Rightarrow> FileRecord option" where
  "getRecord s hash = s hash"

text \<open>\<open>hasErrors(hash, step?)\<close>: the optional argument is an option.\<close>

definition hasErrors :: "Records \<Rightarrow> string \<Rightarrow> Action option \<Rightarrow> bool" where
  "hasErrors s hash step =
     (case s hash of
        None \<Rightarrow> False
      | Some record \<Rightarrow>
          (case step of
             Some st \<Rightarrow>
               (case logs_get (logs record) st of
                  None \<Rightarrow> False
                | Some entry \<Rightarrow> error entry \<noteq> None)
           | None \<Rightarrow> list_ex (\<lambda>entry. error entry \<noteq> None) (map snd (logs record))))"

definition getStepLogs :: "Records \<Rightarrow> string \<Rightarrow> Action \<Rightarrow> LogEntry option" where
  "getStepLogs s hash step =
     (case s hash of None \<Rightarrow> None | Some record \<Rightarrow> logs_get (logs record) step)"

text \<open>
  \<open>getLastStep\<close>. The callback of \<open>reduce\<close> reads \<open>record.logs[latest].timestamp\<close>, which
  throws a \<open>TypeError\<close> when \<open>latest\<close> has no entry; the model keeps that branch.
\<close>

datatype js_error = TypeError

fun reduce_latest :: "Logs \<Rightarrow> Logs \<Rightarrow> Action option \<Rightarrow> js_error + Action option" where
  "reduce_latest lg [] latest = Inr latest"
| "reduce_latest lg ((act, entry) # rest) latest =
     (case latest of
        None \<Rightarrow> reduce_latest lg rest (Some act)
      | Some lt \<Rightarrow>
          (case logs_get lg lt of
             None \<Rightarrow> Inl TypeError
           | Some cur \<Rightarrow>
               if isAfter (timestamp entry) (timestamp cur)
               then reduce_latest lg rest (Some act)
               else reduce_latest lg rest latest))"

definition getLastStep :: "Records \<Rightarrow> string \<Rightarrow> js_error + Action option" where
  "getLastStep s hash =
     (case s hash of
        None \<Rightarrow> Inr None
      | Some record \<Rightarrow>
          (let steps = logs record
           in if length steps = 0 then Inr None
              else reduce_latest (logs record) steps None))"

definition addError ::
  "string \<Rightarrow> Action \<Rightarrow> string \<Rightarrow> string option \<Rightarrow> Timestamp \<Rightarrow> Records \<Rightarrow> Records" where
  "addError hash act msg stk now s =
     (case s hash of
        None \<Rightarrow> s
      | Some record \<Rightarrow>
          s(hash \<mapsto> record\<lparr>logs :=
              logs_set act
                \<lparr>timestamp = now, completed = False,
                  error = Some \<lparr>message = msg, stack = stk, action = act\<rparr>\<rparr>
                (logs record)\<rparr>))"

text \<open>
  \<open>getStepErrors\<close> returns objects \<open>{action, error: log.error}\<close>, here pairs; the second
  component has the type of \<open>LogEntry["error"]\<close>.
\<close>

definition getStepErrors :: "Records \<Rightarrow> string \<Rightarrow> (Action \<times> ErrorInfo option) list" where
  "getStepErrors s hash =
     (case s hash of
        None \<Rightarrow> []
      | Some record \<Rightarrow>
          map (\<lambda>(act, entry). (act, error entry))
            (filter (\<lambda>(_, entry). error entry \<noteq> None) (logs record)))"

definition getLastError :: "Records \<Rightarrow> string \<Rightarrow> (Action \<times> ErrorInfo option) option" where
  "getLastError s hash =
     (let errors = getStepErrors s hash
      in if length errors > 0 then Some (errors ! (length errors - 1)) else None)"

section \<open>Sequences of calls\<close>

text \<open>
  The calls a client can make that change the state, and their effect in sequence. A call
  of \<open>setTags\<close> passes a reference to an array of the store. Beside the calls of the
  manager, the steps include what the caller can do to the arrays on its own: make a new
  array, and change an array it holds in place (\<open>push\<close>, \<open>splice\<close>, \<open>sort\<close> and the
  like, each of which gives the same array object new contents).
\<close>

datatype op =
    StartTracking string string
  | SetFile string TFile
  | SetStatus string FileStatus
  | AddAction string Action bool Timestamp
  | AddTag string string
  | SetTags string ArrayRef
  | SetClassification string string
  | SetFormatted string bool
  | SetNewPath string string
  | SetNewName string string
  | AddError string Action string "string option" Timestamp
  | CallerNewArray "string list"
  | CallerWriteArray ArrayRef "string list"

fun exec :: "op \<Rightarrow> World \<Rightarrow> World" where
  "exec (StartTracking hash name) w = snd (startTracking hash name w)"
| "exec (SetFile hash f) w = w\<lparr>records := setFile hash f (records w)\<rparr>"
| "exec (SetStatus hash st) w = w\<lparr>records := setStatus hash st (records w)\<rparr>"
| "exec (AddAction hash step c now) w = w\<lparr>records := addAction hash step c now (records w)\<rparr>"
| "exec (AddTag hash tag) w = addTag hash tag w"
| "exec (SetTags hash ref) w = w\<lparr>records := setTags hash ref (records w)\<rparr>"
| "exec (SetClassification hash c) w = w\<lparr>records := setClassification hash c (records w)\<rparr>"
| "exec (SetFormatted hash b) w = w\<lparr>records := setFormatted hash b (records w)\<rparr>"
| "exec (SetNewPath hash p) w = w\<lparr>records := setNewPath hash p (records w)\<rparr>"
| "exec (SetNewName hash n) w = w\<lparr>records := setNewName hash n (records w)\<rparr>"
| "exec (AddError hash act msg stk now) w =
     w\<lparr>records := addError hash act msg stk now (records w)\<rparr>"
| "exec (CallerNewArray xs) w = w\<lparr>arrays := arrays w @ [xs]\<rparr>"
| "exec (CallerWriteArray ref xs) w = w\<lparr>arrays := (arrays w)[ref := xs]\<rparr>"

fun run :: "op list \<Rightarrow> World \<Rightarrow> World" where
  "run [] w = w"
| "run (c # cs) w = run cs (exec c w)"

text \<open>
  The condition on a step: a call of \<open>setTags\<close> is handed an array of the store that
  repeats no tag at the moment of the call, and a change the caller makes to an array
  leaves it without a repeated tag. Every other step is free.
\<close>

fun call_ok :: "op \<Rightarrow> World \<Rightarrow> bool" where
  "call_ok (SetTags hash ref) w = (ref < length (arrays w) \<and> distinct (arrays w ! ref))"
| "call_ok (CallerWriteArray ref xs) w = (ref < length (arrays w) \<and> distinct xs)"
| "call_ok _ w = True"

fun calls_ok :: "op list \<Rightarrow> World \<Rightarrow> bool" where
  "calls_ok [] w = True"
| "calls_ok (c # cs) w = (call_ok c w \<and> calls_ok cs (exec c w))"

section \<open>Facts about the model\<close>

subsection \<open>The enum's string values\<close>

lemma Action_value_nonempty: "Action_value a \<noteq> []"
  by (cases a) simp_all

lemma Action_value_inj: "Action_value a = Action_value b \<Longrightarrow> a = b"
  by (cases a; cases b; simp)

lemma Action_value_not_index: "hd (Action_value a) \<notin> set ''0123456789''"
  by (cases a) simp_all

subsection \<open>Reading and assigning log entries\<close>

lemma logs_get_logs_set:
  "logs_get (logs_set k v lg) k' = (if k' = k then Some v else logs_get lg k')"
  by (induction lg) (auto simp: logs_get_def)

lemma keys_logs_set:
  "map fst (logs_set k v lg) =
     (if k \<in> set (map fst lg) then map fst lg else map fst lg @ [k])"
  by (induction lg) auto

lemma logs_ok_logs_set: "logs_ok lg \<Longrightarrow> logs_ok (logs_set k v lg)"
  by (simp add: logs_ok_def keys_logs_set)

lemma logs_get_member:
  "logs_ok lg \<Longrightarrow> (k, e) \<in> set lg \<Longrightarrow> logs_get lg k = Some e"
  by (simp add: logs_ok_def logs_get_def)

lemma filter_key_logs_set:
  "logs_ok lg \<Longrightarrow> filter (\<lambda>e. fst e = k) (logs_set k v lg) = [(k, v)]"
  unfolding logs_ok_def
proof (induction lg)
  case Nil
  then show ?case by simp
next
  case (Cons p ps)
  show ?case
  proof (cases "fst p = k")
    case True
    with Cons.prems have "k \<notin> fst ` set ps" by auto
    then have "filter (\<lambda>e. fst e = k) ps = []"
      by (auto simp: filter_empty_conv)
    with True show ?thesis by simp
  next
    case False
    with Cons show ?thesis by simp
  qed
qed

lemma filter_other_logs_set:
  "k' \<noteq> k \<Longrightarrow>
     filter (\<lambda>e. fst e = k') (logs_set k v lg) = filter (\<lambda>e. fst e = k') lg"
  by (induction lg) auto

lemma getBaseAction_neq: "getBaseAction d = Some b \<Longrightarrow> b \<noteq> d"
  by (cases d) auto

subsection \<open>Every log object built by the methods has one entry per key\<close>

lemma exec_logs_ok:
  assumes "\<forall>h. record_logs_ok (records w) h"
  shows "record_logs_ok (records (exec c w)) h"
proof -
  have ok: "logs_ok (logs r)" if "records w h' = Some r" for h' r
    using assms [rule_format, of h'] that by (simp add: record_logs_ok_def)
  show ?thesis
  proof (cases c)
    case (StartTracking hash name)
    then show ?thesis
      using assms [rule_format, of h]
      by (auto simp: startTracking_def record_logs_ok_def logs_ok_def)
  next
    case (SetFile hash f)
    then show ?thesis
      by (auto simp: setFile_def record_logs_ok_def ok split: option.splits)
  next
    case (SetStatus hash st)
    then show ?thesis
      by (auto simp: setStatus_def record_logs_ok_def ok split: option.splits)
  next
    case (AddAction hash step c now)
    then show ?thesis
      by (auto simp: addAction_def Let_def record_logs_ok_def ok logs_ok_logs_set
          split: option.splits if_splits)
  next
    case (AddTag hash tag)
    then show ?thesis
      by (auto simp: addTag_def record_logs_ok_def ok split: option.splits if_splits)
  next
    case (SetTags hash ref)
    then show ?thesis
      by (auto simp: setTags_def record_logs_ok_def ok split: option.splits)
  next
    case (SetClassification hash c)
    then show ?thesis
      by (auto simp: setClassification_def record_logs_ok_def ok split: option.splits)
  next
    case (SetFormatted hash b)
    then show ?thesis
      by (auto simp: setFormatted_def record_logs_ok_def ok split: option.splits)
  next
    case (SetNewPath hash p)
    then show ?thesis
      by (auto simp: setNewPath_def record_logs_ok_def ok split: option.splits)
  next
    case (SetNewName hash n)
    then show ?thesis
      by (auto simp: setNewName_def record_logs_ok_def ok split: option.splits)
  next
    case (AddError hash act msg stk now)
    then show ?thesis
      by (auto simp: addError_def record_logs_ok_def ok logs_ok_logs_set split: option.splits)
  next
    case (CallerNewArray xs)
    then show ?thesis
      using assms by simp
  next
    case (CallerWriteArray ref xs)
    then show ?thesis
      using assms by simp
  qed
qed

lemma run_logs_ok:
  "\<forall>h. record_logs_ok (records w) h \<Longrightarrow> record_logs_ok (records (run cs w)) h"
proof (induction cs arbitrary: w h)
  case Nil
  then show ?case by simp
next
  case (Cons c cs)
  have "\<forall>h. record_logs_ok (records (exec c w)) h"
    using Cons.prems by (auto intro: exec_logs_ok)
  then show ?case
    by (simp add: Cons.IH)
qed

lemma reachable_logs_ok: "record_logs_ok (records (run cs (init hp))) h"
  by (rule run_logs_ok) (simp add: record_logs_ok_def init_def)

section \<open>Creation of records\<close>

text \<open>
  C3. \<open>startTracking\<close> always returns the id. When the id has no record it inserts one
  with status queued, a new empty tag array, no log entries and no file, and touches no
  other id and no existing array; when the id has a record the whole state is left exactly
  as it was, whatever has been done to that record since its creation. A second call with
  the same id therefore changes nothing.
\<close>

theorem startTracking_creates_once:
  "fst (startTracking hash name w) = hash
   \<and> (getRecord (records w) hash = None \<longrightarrow>
        getRecord (records (snd (startTracking hash name w))) hash =
          Some \<lparr> id_rec = hash, tags = length (arrays w), classification = None,
                 formatted = False, newPath = None, newName = None, originalName = name,
                 logs = [], status = St_queued, file_rec = None \<rparr>
        \<and> getTags (snd (startTracking hash name w)) hash = Some []
        \<and> arrays (snd (startTracking hash name w)) = arrays w @ [[]]
        \<and> (\<forall>h. h \<noteq> hash \<longrightarrow>
              getRecord (records (snd (startTracking hash name w))) h = getRecord (records w) h))
   \<and> (getRecord (records w) hash \<noteq> None \<longrightarrow> snd (startTracking hash name w) = w)
   \<and> startTracking hash name' (snd (startTracking hash name w)) =
       (hash, snd (startTracking hash name w))"
  by (auto simp: startTracking_def getRecord_def getTags_def)

theorem startTracking_creates_once_witness:
  "getRecord (records (init [])) ''h1'' = None
   \<and> getRecord (records (snd (startTracking ''h1'' ''doc.pdf'' (init [])))) ''h1'' =
        Some \<lparr> id_rec = ''h1'', tags = 0, classification = None, formatted = False,
               newPath = None, newName = None, originalName = ''doc.pdf'',
               logs = [], status = St_queued, file_rec = None \<rparr>
   \<and> getTags (snd (startTracking ''h1'' ''doc.pdf'' (init []))) ''h1'' = Some []
   \<and> getRecord (records (run [StartTracking ''h1'' ''doc.pdf'',
         SetStatus ''h1'' St_processing, AddTag ''h1'' ''x''] (init []))) ''h1'' \<noteq> None
   \<and> snd (startTracking ''h1'' ''other.pdf''
            (run [StartTracking ''h1'' ''doc.pdf'',
              SetStatus ''h1'' St_processing, AddTag ''h1'' ''x''] (init []))) =
       run [StartTracking ''h1'' ''doc.pdf'',
         SetStatus ''h1'' St_processing, AddTag ''h1'' ''x''] (init [])"
proof -
  let ?w = "run [StartTracking ''h1'' ''doc.pdf'',
         SetStatus ''h1'' St_processing, AddTag ''h1'' ''x''] (init [])"
  have a: "getRecord (records (init [])) ''h1'' = None"
    by (simp add: getRecord_def init_def)
  have b: "getRecord (records ?w) ''h1'' \<noteq> None"
    by (simp add: getRecord_def setStatus_def startTracking_def addTag_def init_def)
  have c: "length (arrays (init [])) = 0"
    by (simp add: init_def)
  from a b c
    startTracking_creates_once [of "''h1''" "''doc.pdf''" "init []"]
    startTracking_creates_once [of "''h1''" "''other.pdf''" ?w]
  show ?thesis by auto
qed

section \<open>Calls on an unknown id\<close>

text \<open>
  C4. When the id has no record, each field setter, \<open>addTag\<close>, \<open>addAction\<close> and
  \<open>addError\<close> returns the state unchanged: no record is created and no array is touched.
  None of these methods has a \<open>throw\<close> or a dereference outside the test \<open>if (record)\<close>,
  so the model of each is a total function without an error result.
\<close>

theorem unknown_id_is_inert:
  assumes "getRecord s hash = None"
  shows "setFile hash f s = s \<and> setStatus hash st s = s
       \<and> addTag hash tag \<lparr>records = s, arrays = hp\<rparr> = \<lparr>records = s, arrays = hp\<rparr>
       \<and> setTags hash ref s = s \<and> setClassification hash c s = s
       \<and> setFormatted hash b s = s \<and> setNewPath hash p s = s \<and> setNewName hash n s = s
       \<and> addAction hash step cmp now s = s \<and> addError hash act msg stk now s = s"
  using assms
  by (simp add: getRecord_def setFile_def setStatus_def addTag_def setTags_def
      setClassification_def setFormatted_def setNewPath_def setNewName_def
      addAction_def addError_def)

theorem unknown_id_is_inert_witness:
  "getRecord (records (run [StartTracking ''h1'' ''doc.pdf''] (init []))) ''h2'' = None
   \<and> setStatus ''h2'' St_error (records (run [StartTracking ''h1'' ''doc.pdf''] (init []))) =
       records (run [StartTracking ''h1'' ''doc.pdf''] (init []))
   \<and> addTag ''h2'' ''x'' (run [StartTracking ''h1'' ''doc.pdf''] (init [])) =
       run [StartTracking ''h1'' ''doc.pdf''] (init [])
   \<and> setTags ''h2'' 0 (records (run [StartTracking ''h1'' ''doc.pdf''] (init []))) =
       records (run [StartTracking ''h1'' ''doc.pdf''] (init []))
   \<and> addAction ''h2'' CLASSIFY False 5
         (records (run [StartTracking ''h1'' ''doc.pdf''] (init []))) =
       records (run [StartTracking ''h1'' ''doc.pdf''] (init []))
   \<and> addError ''h2'' TAGGING ''timeout'' None 5
         (records (run [StartTracking ''h1'' ''doc.pdf''] (init []))) =
       records (run [StartTracking ''h1'' ''doc.pdf''] (init []))
   \<and> getRecord (addError ''h2'' TAGGING ''timeout'' None 5
         (records (run [StartTracking ''h1'' ''doc.pdf''] (init [])))) ''h2'' = None"
proof -
  let ?w = "run [StartTracking ''h1'' ''doc.pdf''] (init [])"
  have a: "getRecord (records ?w) ''h2'' = None"
    by (simp add: getRecord_def startTracking_def init_def)
  have b: "\<lparr>records = records ?w, arrays = arrays ?w\<rparr> = ?w"
    by simp
  from a unknown_id_is_inert [OF a, of _ St_error "''x''" "arrays ?w" 0 _ _ _ _
      CLASSIFY False 5 TAGGING "''timeout''" None]
  show ?thesis unfolding b by simp
qed

section \<open>The stage event log\<close>

text \<open>
  C1. Let the id be registered and let \<open>S_DONE\<close> be a done stage whose base action in the
  pairing table is \<open>S\<close>. After \<open>addAction(id, S)\<close> at time \<open>t1\<close> and then
  \<open>addAction(id, S_DONE, true)\<close> at time \<open>t2\<close>, the only entry keyed by \<open>S\<close> has
  \<open>completed = true\<close>, the timestamp \<open>t1\<close> of the first call and no error. The two calls
  neither create nor change an entry keyed by \<open>S_DONE\<close>: the entries under that key are
  those that were there before. When there was none before, the entry keyed by \<open>S\<close> is the
  only entry of the pair.
\<close>

theorem addAction_pairing:
  assumes "getRecord s hash = Some r" and "logs_ok (logs r)"
    and "getBaseAction S_DONE = Some S"
  shows "\<exists>r'. getRecord (addAction hash S_DONE True t2 (addAction hash S False t1 s)) hash
                = Some r'
      \<and> filter (\<lambda>e. fst e = S) (logs r') =
          [(S, \<lparr>timestamp = t1, completed = True, error = None\<rparr>)]
      \<and> filter (\<lambda>e. fst e = S_DONE) (logs r') = filter (\<lambda>e. fst e = S_DONE) (logs r)
      \<and> (getStepLogs s hash S_DONE = None \<longrightarrow>
           filter (\<lambda>e. fst e = S \<or> fst e = S_DONE) (logs r') =
             [(S, \<lparr>timestamp = t1, completed = True, error = None\<rparr>)])"
proof -
  let ?started = "\<lparr>timestamp = t1, completed = False, error = None\<rparr>"
  let ?finished = "\<lparr>timestamp = t1, completed = True, error = None\<rparr>"
  let ?lga = "logs_set S ?started (logs r)"
  let ?lgb = "logs_set S ?finished ?lga"
  let ?fin = "addAction hash S_DONE True t2 (addAction hash S False t1 s)"
  from assms(1) have sr: "s hash = Some r"
    by (simp add: getRecord_def)
  have ne: "S_DONE \<noteq> S"
    using assms(3) by (auto dest: getBaseAction_neq)
  have s1: "addAction hash S False t1 s = s(hash \<mapsto> r\<lparr>logs := ?lga\<rparr>)"
    using sr by (simp add: addAction_def)
  have s2: "?fin = (s(hash \<mapsto> r\<lparr>logs := ?lga\<rparr>))(hash \<mapsto> r\<lparr>logs := ?lgb\<rparr>)"
    unfolding s1 using assms(3) by (simp add: addAction_def logs_get_logs_set)
  have ok1: "logs_ok ?lga"
    using assms(2) by (rule logs_ok_logs_set)
  have fS: "filter (\<lambda>e. fst e = S) ?lgb = [(S, ?finished)]"
    using ok1 by (rule filter_key_logs_set)
  have fD: "filter (\<lambda>e. fst e = S_DONE) ?lgb = filter (\<lambda>e. fst e = S_DONE) (logs r)"
    using ne by (simp add: filter_other_logs_set)
  have both: "filter (\<lambda>e. fst e = S \<or> fst e = S_DONE) ?lgb = [(S, ?finished)]"
    if "getStepLogs s hash S_DONE = None"
  proof -
    from that sr have "S_DONE \<notin> fst ` set (logs r)"
      by (simp add: getStepLogs_def logs_get_def map_of_eq_None_iff)
    then have "filter (\<lambda>e. fst e = S_DONE) ?lgb = []"
      unfolding fD by (auto simp: filter_empty_conv)
    then have "\<forall>e \<in> set ?lgb. fst e \<noteq> S_DONE"
      by (simp add: filter_empty_conv)
    then have "filter (\<lambda>e. fst e = S \<or> fst e = S_DONE) ?lgb = filter (\<lambda>e. fst e = S) ?lgb"
      by (intro filter_cong) auto
    with fS show ?thesis by simp
  qed
  have "getRecord ?fin hash = Some (r\<lparr>logs := ?lgb\<rparr>)"
    unfolding s2 by (simp add: getRecord_def)
  with fS fD both show ?thesis by simp
qed

theorem addAction_pairing_witness:
  "map_option logs (getRecord (records (run [StartTracking ''h1'' ''doc.pdf''] (init []))) ''h1'') = Some []
   \<and> logs_ok []
   \<and> getBaseAction CLASSIFY_DONE = Some CLASSIFY
   \<and> getStepLogs (records (run [StartTracking ''h1'' ''doc.pdf''] (init []))) ''h1'' CLASSIFY_DONE = None
   \<and> map_option logs (getRecord
        (addAction ''h1'' CLASSIFY_DONE True 2
          (addAction ''h1'' CLASSIFY False 1
            (records (run [StartTracking ''h1'' ''doc.pdf''] (init []))))) ''h1'') =
       Some [(CLASSIFY, \<lparr>timestamp = 1, completed = True, error = None\<rparr>)]"
proof -
  let ?s = "records (run [StartTracking ''h1'' ''doc.pdf''] (init []))"
  let ?r = "\<lparr> id_rec = ''h1'', tags = 0, classification = None, formatted = False,
              newPath = None, newName = None, originalName = ''doc.pdf'',
              logs = [], status = St_queued, file_rec = None \<rparr>"
  have a: "getRecord ?s ''h1'' = Some ?r"
    by (simp add: getRecord_def startTracking_def init_def)
  have b: "logs_ok (logs ?r)"
    by (simp add: logs_ok_def)
  have c: "getBaseAction CLASSIFY_DONE = Some CLASSIFY"
    by simp
  have d: "getStepLogs ?s ''h1'' CLASSIFY_DONE = None"
    by (simp add: getStepLogs_def startTracking_def init_def logs_get_def)
  from addAction_pairing [OF a b c, of 2 1] d
  obtain r' where r': "getRecord (addAction ''h1'' CLASSIFY_DONE True 2
        (addAction ''h1'' CLASSIFY False 1 ?s)) ''h1'' = Some r'"
    and f: "filter (\<lambda>e. fst e = CLASSIFY \<or> fst e = CLASSIFY_DONE) (logs r') =
        [(CLASSIFY, \<lparr>timestamp = 1, completed = True, error = None\<rparr>)]"
    by blast
  have "map_option logs (getRecord (addAction ''h1'' CLASSIFY_DONE True 2
        (addAction ''h1'' CLASSIFY False 1 ?s)) ''h1'') =
       Some [(CLASSIFY, \<lparr>timestamp = 1, completed = True, error = None\<rparr>)]"
    by (simp add: getRecord_def addAction_def startTracking_def init_def logs_get_def)
  with a b c d r' f show ?thesis
    by (simp add: logs_ok_def)
qed

text \<open>
  The statement without the proviso fails. A done call that found no base entry has written
  an entry keyed by \<open>CLASSIFY_DONE\<close>; the pair of calls then leaves two entries for the
  pair, in the order of insertion.
\<close>

theorem addAction_pairing_counterexample:
  "map_option logs (getRecord
     (addAction ''h1'' CLASSIFY_DONE True 3
       (addAction ''h1'' CLASSIFY False 2
         (addAction ''h1'' CLASSIFY_DONE True 1
           (records (snd (startTracking ''h1'' ''doc.pdf'' (init []))))))) ''h1'') =
   Some [(CLASSIFY_DONE, \<lparr>timestamp = 1, completed = True, error = None\<rparr>),
         (CLASSIFY, \<lparr>timestamp = 2, completed = True, error = None\<rparr>)]"
  by (simp add: getRecord_def addAction_def startTracking_def init_def logs_get_def)

text \<open>
  C5. Let the id be registered and let \<open>step\<close> either have no base action in the pairing
  table, or have a base action without an entry for the job. Then
  \<open>addAction(id, step, true)\<close> at time \<open>now\<close> leaves exactly one entry keyed by \<open>step\<close>
  itself, with timestamp \<open>now\<close>, \<open>completed = true\<close> and no error; the entries of every
  other key are unchanged. The call returns normally.
\<close>

theorem addAction_pairing_miss:
  assumes "getRecord s hash = Some r" and "logs_ok (logs r)"
    and "getBaseAction step = None
         \<or> (\<exists>b. getBaseAction step = Some b \<and> getStepLogs s hash b = None)"
  shows "\<exists>r'. getRecord (addAction hash step True now s) hash = Some r'
      \<and> filter (\<lambda>e. fst e = step) (logs r') =
          [(step, \<lparr>timestamp = now, completed = True, error = None\<rparr>)]
      \<and> (\<forall>k. k \<noteq> step \<longrightarrow>
            filter (\<lambda>e. fst e = k) (logs r') = filter (\<lambda>e. fst e = k) (logs r))"
  using assms
  by (auto simp: getRecord_def addAction_def getStepLogs_def filter_key_logs_set
      filter_other_logs_set Let_def)

theorem addAction_pairing_miss_witness:
  "map_option logs (getRecord (records (run [StartTracking ''h1'' ''doc.pdf''] (init []))) ''h1'') = Some []
   \<and> logs_ok []
   \<and> getBaseAction TAGGING_DONE = Some TAGGING
   \<and> getStepLogs (records (run [StartTracking ''h1'' ''doc.pdf''] (init []))) ''h1'' TAGGING = None
   \<and> map_option logs (getRecord
        (addAction ''h1'' TAGGING_DONE True 4
          (records (run [StartTracking ''h1'' ''doc.pdf''] (init [])))) ''h1'') =
       Some [(TAGGING_DONE, \<lparr>timestamp = 4, completed = True, error = None\<rparr>)]
   \<and> getBaseAction CONTAINER_DONE = None
   \<and> map_option logs (getRecord
        (addAction ''h1'' CONTAINER_DONE True 4
          (records (run [StartTracking ''h1'' ''doc.pdf''] (init [])))) ''h1'') =
       Some [(CONTAINER_DONE, \<lparr>timestamp = 4, completed = True, error = None\<rparr>)]"
proof -
  let ?s = "records (run [StartTracking ''h1'' ''doc.pdf''] (init []))"
  let ?r = "\<lparr> id_rec = ''h1'', tags = 0, classification = None, formatted = False,
              newPath = None, newName = None, originalName = ''doc.pdf'',
              logs = [], status = St_queued, file_rec = None \<rparr>"
  have a: "getRecord ?s ''h1'' = Some ?r"
    by (simp add: getRecord_def startTracking_def init_def)
  have b: "logs_ok (logs ?r)"
    by (simp add: logs_ok_def)
  have c: "getBaseAction TAGGING_DONE = None
         \<or> (\<exists>b. getBaseAction TAGGING_DONE = Some b \<and> getStepLogs ?s ''h1'' b = None)"
    by (simp add: getStepLogs_def startTracking_def init_def logs_get_def)
  have d: "getBaseAction CONTAINER_DONE = None
         \<or> (\<exists>b. getBaseAction CONTAINER_DONE = Some b \<and> getStepLogs ?s ''h1'' b = None)"
    by simp
  note addAction_pairing_miss [OF a b c, of 4] addAction_pairing_miss [OF a b d, of 4]
  moreover have "map_option logs (getRecord (addAction ''h1'' TAGGING_DONE True 4 ?s) ''h1'') =
       Some [(TAGGING_DONE, \<lparr>timestamp = 4, completed = True, error = None\<rparr>)]"
    by (simp add: getRecord_def addAction_def startTracking_def init_def logs_get_def)
  moreover have "map_option logs (getRecord (addAction ''h1'' CONTAINER_DONE True 4 ?s) ''h1'') =
       Some [(CONTAINER_DONE, \<lparr>timestamp = 4, completed = True, error = None\<rparr>)]"
    by (simp add: getRecord_def addAction_def startTracking_def init_def)
  moreover have "getStepLogs ?s ''h1'' TAGGING = None"
    by (simp add: getStepLogs_def startTracking_def init_def logs_get_def)
  ultimately show ?thesis
    using a by (simp add: logs_ok_def)
qed

text \<open>
  C9. Let the id be registered, let \<open>S_DONE\<close> have the base action \<open>S\<close>, and let the
  entry for \<open>S\<close> carry an error. Then \<open>addAction(id, S_DONE, true)\<close> sets the entry's
  \<open>completed\<close> flag and keeps its timestamp and its error: the entry has both
  \<open>completed = true\<close> and the error, \<open>hasErrors(id, S)\<close> is still true, and the entry of
  every other key is unchanged.
\<close>

theorem addAction_completes_errored_entry:
  assumes "getRecord s hash = Some r"
    and "getBaseAction S_DONE = Some S"
    and "getStepLogs s hash S = Some entry"
    and "error entry = Some e"
  shows "getStepLogs (addAction hash S_DONE True now s) hash S =
           Some \<lparr>timestamp = timestamp entry, completed = True, error = Some e\<rparr>
       \<and> hasErrors (addAction hash S_DONE True now s) hash (Some S)
       \<and> (\<forall>k. k \<noteq> S \<longrightarrow>
            getStepLogs (addAction hash S_DONE True now s) hash k = getStepLogs s hash k)"
  using assms
  by (simp add: getRecord_def addAction_def getStepLogs_def hasErrors_def
      logs_get_logs_set Let_def)

theorem addAction_completes_errored_entry_witness:
  "getBaseAction TAGGING_DONE = Some TAGGING
   \<and> getStepLogs (records (run [StartTracking ''h1'' ''doc.pdf'',
                       AddError ''h1'' TAGGING ''timeout'' None 5] (init []))) ''h1'' TAGGING =
       Some \<lparr>timestamp = 5, completed = False,
             error = Some \<lparr>message = ''timeout'', stack = None, action = TAGGING\<rparr>\<rparr>
   \<and> getStepLogs (addAction ''h1'' TAGGING_DONE True 9
         (records (run [StartTracking ''h1'' ''doc.pdf'',
               AddError ''h1'' TAGGING ''timeout'' None 5] (init [])))) ''h1'' TAGGING =
       Some \<lparr>timestamp = 5, completed = True,
             error = Some \<lparr>message = ''timeout'', stack = None, action = TAGGING\<rparr>\<rparr>
   \<and> hasErrors (addAction ''h1'' TAGGING_DONE True 9
         (records (run [StartTracking ''h1'' ''doc.pdf'',
               AddError ''h1'' TAGGING ''timeout'' None 5] (init [])))) ''h1'' (Some TAGGING)"
proof -
  let ?s = "records (run [StartTracking ''h1'' ''doc.pdf'',
                 AddError ''h1'' TAGGING ''timeout'' None 5] (init []))"
  let ?e = "\<lparr>message = ''timeout'', stack = None, action = TAGGING\<rparr>"
  let ?entry = "\<lparr>timestamp = 5, completed = False, error = Some ?e\<rparr>"
  let ?r = "\<lparr> id_rec = ''h1'', tags = 0, classification = None, formatted = False,
              newPath = None, newName = None, originalName = ''doc.pdf'',
              logs = [(TAGGING, ?entry)], status = St_queued, file_rec = None \<rparr>"
  have a: "getRecord ?s ''h1'' = Some ?r"
    by (simp add: getRecord_def startTracking_def init_def addError_def)
  have b: "getBaseAction TAGGING_DONE = Some TAGGING"
    by simp
  have c: "getStepLogs ?s ''h1'' TAGGING = Some ?entry"
    by (simp add: getStepLogs_def startTracking_def init_def addError_def logs_get_def)
  have d: "error ?entry = Some ?e"
    by simp
  from addAction_completes_errored_entry [OF a b c d, of 9] b c
  show ?thesis by simp
qed

section \<open>Error capture\<close>

lemma keys_filter_error:
  assumes "logs_ok lg"
  shows "map fst (filter (\<lambda>(k, entry). Q entry) lg) =
         filter (\<lambda>k. case logs_get lg k of None \<Rightarrow> False | Some entry \<Rightarrow> Q entry)
           (map fst lg)"
proof -
  have "filter (\<lambda>(k, entry). Q entry) lg =
        filter ((\<lambda>k. case logs_get lg k of None \<Rightarrow> False | Some entry \<Rightarrow> Q entry) \<circ> fst) lg"
    using assms by (intro filter_cong) (auto simp: logs_get_member)
  then show ?thesis by (simp add: filter_map)
qed

text \<open>
  C2. Let the id be registered. Whatever the entry for \<open>S\<close> was (none, in progress,
  completed, or an earlier error), after \<open>addError(id, {action: S, message, stack})\<close> at
  time \<open>now\<close> the only entry keyed by \<open>S\<close> is the new one: timestamp \<open>now\<close>,
  \<open>completed = false\<close>, and an error holding the message, the stack and \<open>S\<close>. No earlier
  entry for \<open>S\<close> remains.
\<close>

theorem addError_overwrites:
  assumes "getRecord s hash = Some r" and "logs_ok (logs r)"
  shows "\<exists>r'. getRecord (addError hash S msg stk now s) hash = Some r'
      \<and> filter (\<lambda>e. fst e = S) (logs r') =
          [(S, \<lparr>timestamp = now, completed = False,
                error = Some \<lparr>message = msg, stack = stk, action = S\<rparr>\<rparr>)]
      \<and> getStepLogs (addError hash S msg stk now s) hash S =
          Some \<lparr>timestamp = now, completed = False,
                error = Some \<lparr>message = msg, stack = stk, action = S\<rparr>\<rparr>"
  using assms
  by (simp add: getRecord_def addError_def getStepLogs_def filter_key_logs_set
      logs_get_logs_set)

theorem addError_overwrites_witness:
  "map_option logs (getRecord (records (run [StartTracking ''h1'' ''doc.pdf'',
        AddAction ''h1'' CLASSIFY False 1, AddAction ''h1'' CLASSIFY_DONE True 2] (init []))) ''h1'') =
     Some [(CLASSIFY, \<lparr>timestamp = 1, completed = True, error = None\<rparr>)]
   \<and> logs_ok [(CLASSIFY, \<lparr>timestamp = 1, completed = True, error = None\<rparr>)]
   \<and> map_option logs (getRecord (addError ''h1'' CLASSIFY ''m'' (Some ''trace'') 3
        (records (run [StartTracking ''h1'' ''doc.pdf'',
          AddAction ''h1'' CLASSIFY False 1, AddAction ''h1'' CLASSIFY_DONE True 2] (init [])))) ''h1'') =
     Some [(CLASSIFY, \<lparr>timestamp = 3, completed = False,
             error = Some \<lparr>message = ''m'', stack = Some ''trace'', action = CLASSIFY\<rparr>\<rparr>)]"
proof -
  let ?s = "records (run [StartTracking ''h1'' ''doc.pdf'',
        AddAction ''h1'' CLASSIFY False 1, AddAction ''h1'' CLASSIFY_DONE True 2] (init []))"
  let ?r = "\<lparr> id_rec = ''h1'', tags = 0, classification = None, formatted = False,
              newPath = None, newName = None, originalName = ''doc.pdf'',
              logs = [(CLASSIFY, \<lparr>timestamp = 1, completed = True, error = None\<rparr>)],
              status = St_queued, file_rec = None \<rparr>"
  have a: "getRecord ?s ''h1'' = Some ?r"
    by (simp add: getRecord_def startTracking_def init_def addAction_def logs_get_def)
  have b: "logs_ok (logs ?r)"
    by (simp add: logs_ok_def)
  note addError_overwrites [OF a b, of CLASSIFY "''m''" "Some ''trace''" 3]
  moreover have "map_option logs (getRecord (addError ''h1'' CLASSIFY ''m'' (Some ''trace'') 3 ?s)
        ''h1'') =
     Some [(CLASSIFY, \<lparr>timestamp = 3, completed = False,
             error = Some \<lparr>message = ''m'', stack = Some ''trace'', action = CLASSIFY\<rparr>\<rparr>)]"
    by (simp add: getRecord_def startTracking_def init_def addAction_def addError_def logs_get_def)
  ultimately show ?thesis
    using a b by simp
qed

text \<open>
  C8. For every id: \<open>getStepErrors(id)\<close> is empty when the id is unknown; otherwise its
  stages are the keys of the log object whose entry carries an error, in the order of the
  log object, and a pair of a stage and an error is in the result exactly when the entry of
  that stage carries that error. \<open>hasErrors(id)\<close> holds exactly when the result is not
  empty, \<open>hasErrors(id, stage)\<close> exactly when the entry of the stage carries an error, and
  \<open>getLastError(id)\<close> is the last element of the result, or null when it is empty.
\<close>

theorem step_error_queries:
  assumes "record_logs_ok s hash"
  shows "(getRecord s hash = None \<longrightarrow> getStepErrors s hash = [])
       \<and> (\<forall>r. getRecord s hash = Some r \<longrightarrow>
             map fst (getStepErrors s hash) =
               filter (\<lambda>k. hasErrors s hash (Some k)) (map fst (logs r)))
       \<and> (\<forall>k e. (k, e) \<in> set (getStepErrors s hash) \<longleftrightarrow>
             e \<noteq> None \<and> (\<exists>entry. getStepLogs s hash k = Some entry \<and> error entry = e))
       \<and> (hasErrors s hash None \<longleftrightarrow> getStepErrors s hash \<noteq> [])
       \<and> (\<forall>k. hasErrors s hash (Some k) \<longleftrightarrow>
             (\<exists>entry e. getStepLogs s hash k = Some entry \<and> error entry = Some e))
       \<and> getLastError s hash =
           (if getStepErrors s hash = [] then None else Some (last (getStepErrors s hash)))"
proof (cases "getRecord s hash")
  case None
  then show ?thesis
    by (simp add: getRecord_def getStepErrors_def hasErrors_def getStepLogs_def
        getLastError_def)
next
  case (Some r)
  with assms have ok: "logs_ok (logs r)"
    by (simp add: record_logs_ok_def getRecord_def)
  from Some have sr: "s hash = Some r" by (simp add: getRecord_def)
  let ?errs = "filter (\<lambda>(k, entry). error entry \<noteq> None) (logs r)"
  have gse: "getStepErrors s hash = map (\<lambda>(k, entry). (k, error entry)) ?errs"
    using sr by (simp add: getStepErrors_def)
  have he: "hasErrors s hash (Some k) =
      (case logs_get (logs r) k of None \<Rightarrow> False | Some entry \<Rightarrow> error entry \<noteq> None)" for k
    using sr by (simp add: hasErrors_def)
  have gsl: "getStepLogs s hash k = logs_get (logs r) k" for k
    using sr by (simp add: getStepLogs_def)
  have keys: "map fst (getStepErrors s hash) =
      filter (\<lambda>k. hasErrors s hash (Some k)) (map fst (logs r))"
  proof -
    have "map fst (getStepErrors s hash) = map fst ?errs"
      unfolding gse by (simp add: case_prod_beta comp_def)
    also have "\<dots> = filter (\<lambda>k. case logs_get (logs r) k of None \<Rightarrow> False
                                | Some entry \<Rightarrow> error entry \<noteq> None) (map fst (logs r))"
      using ok by (rule keys_filter_error)
    finally show ?thesis by (simp add: he)
  qed
  have mem: "(k, e) \<in> set (getStepErrors s hash) \<longleftrightarrow>
      e \<noteq> None \<and> (\<exists>entry. getStepLogs s hash k = Some entry \<and> error entry = e)" for k e
  proof
    assume "(k, e) \<in> set (getStepErrors s hash)"
    then obtain entry where "(k, entry) \<in> set (logs r)" "error entry \<noteq> None" "e = error entry"
      unfolding gse by auto
    with ok show "e \<noteq> None \<and> (\<exists>entry. getStepLogs s hash k = Some entry \<and> error entry = e)"
      by (auto simp: gsl logs_get_member)
  next
    assume "e \<noteq> None \<and> (\<exists>entry. getStepLogs s hash k = Some entry \<and> error entry = e)"
    then obtain entry where en: "logs_get (logs r) k = Some entry" "error entry = e" "e \<noteq> None"
      by (auto simp: gsl)
    then have "(k, entry) \<in> set (logs r)"
      by (auto simp: logs_get_def dest: map_of_SomeD)
    with en show "(k, e) \<in> set (getStepErrors s hash)"
      unfolding gse by force
  qed
  have any: "hasErrors s hash None \<longleftrightarrow> getStepErrors s hash \<noteq> []"
    using sr unfolding gse
    by (force simp: hasErrors_def list_ex_iff filter_empty_conv)
  have one: "hasErrors s hash (Some k) \<longleftrightarrow>
      (\<exists>entry e. getStepLogs s hash k = Some entry \<and> error entry = Some e)" for k
    by (auto simp: he gsl split: option.splits)
  have lst: "getLastError s hash =
      (if getStepErrors s hash = [] then None else Some (last (getStepErrors s hash)))"
    by (simp add: getLastError_def Let_def last_conv_nth)
  from Some keys mem any one lst show ?thesis by simp
qed

theorem step_error_queries_witness:
  "record_logs_ok (records (run [StartTracking ''h1'' ''doc.pdf'', AddAction ''h1'' CLASSIFY False 1,
       AddError ''h1'' TAGGING ''timeout'' None 2,
       AddError ''h1'' MOVING ''disk'' (Some ''trace'') 3] (init []))) ''h1''
   \<and> getStepErrors (records (run [StartTracking ''h1'' ''doc.pdf'', AddAction ''h1'' CLASSIFY False 1,
       AddError ''h1'' TAGGING ''timeout'' None 2,
       AddError ''h1'' MOVING ''disk'' (Some ''trace'') 3] (init []))) ''h1'' =
      [(TAGGING, Some \<lparr>message = ''timeout'', stack = None, action = TAGGING\<rparr>),
       (MOVING, Some \<lparr>message = ''disk'', stack = Some ''trace'', action = MOVING\<rparr>)]
   \<and> hasErrors (records (run [StartTracking ''h1'' ''doc.pdf'', AddAction ''h1'' CLASSIFY False 1,
       AddError ''h1'' TAGGING ''timeout'' None 2,
       AddError ''h1'' MOVING ''disk'' (Some ''trace'') 3] (init []))) ''h1'' None
   \<and> getLastError (records (run [StartTracking ''h1'' ''doc.pdf'', AddAction ''h1'' CLASSIFY False 1,
       AddError ''h1'' TAGGING ''timeout'' None 2,
       AddError ''h1'' MOVING ''disk'' (Some ''trace'') 3] (init []))) ''h1'' =
      Some (MOVING, Some \<lparr>message = ''disk'', stack = Some ''trace'', action = MOVING\<rparr>)"
proof -
  let ?s = "records (run [StartTracking ''h1'' ''doc.pdf'', AddAction ''h1'' CLASSIFY False 1,
       AddError ''h1'' TAGGING ''timeout'' None 2,
       AddError ''h1'' MOVING ''disk'' (Some ''trace'') 3] (init []))"
  have a: "record_logs_ok ?s ''h1''"
    by (simp add: record_logs_ok_def logs_ok_def startTracking_def init_def addAction_def addError_def)
  have b: "getStepErrors ?s ''h1'' =
      [(TAGGING, Some \<lparr>message = ''timeout'', stack = None, action = TAGGING\<rparr>),
       (MOVING, Some \<lparr>message = ''disk'', stack = Some ''trace'', action = MOVING\<rparr>)]"
    by (simp add: getStepErrors_def startTracking_def init_def addAction_def addError_def)
  from step_error_queries [OF a] have
    "(hasErrors ?s ''h1'' None \<longleftrightarrow> getStepErrors ?s ''h1'' \<noteq> [])
     \<and> getLastError ?s ''h1'' =
         (if getStepErrors ?s ''h1'' = [] then None else Some (last (getStepErrors ?s ''h1'')))"
    by blast
  with a b show ?thesis by simp
qed

section \<open>The last step\<close>

text \<open>
  The callback of \<open>reduce\<close> keeps the current candidate while no later entry has a
  strictly later timestamp, and moves to an entry that has one.
\<close>

lemma reduce_latest_keep:
  "logs_get lg k = Some cur \<Longrightarrow> \<forall>e \<in> set rest. timestamp (snd e) \<le> timestamp cur
   \<Longrightarrow> reduce_latest lg rest (Some k) = Inr (Some k)"
proof (induction rest)
  case Nil
  then show ?case by simp
next
  case (Cons p rest)
  obtain a e where p: "p = (a, e)" by (cases p)
  with Cons.prems have "\<not> isAfter (timestamp e) (timestamp cur)"
    by (auto simp: isAfter_def)
  with Cons p show ?case by simp
qed

lemma reduce_latest_switch:
  assumes "logs_ok lg"
  shows "set (pre @ (k, cur) # post) \<subseteq> set lg \<Longrightarrow> logs_get lg k0 = Some c0
    \<Longrightarrow> timestamp c0 < timestamp cur
    \<Longrightarrow> \<forall>e \<in> set pre. timestamp (snd e) < timestamp cur
    \<Longrightarrow> \<forall>e \<in> set post. timestamp (snd e) \<le> timestamp cur
    \<Longrightarrow> reduce_latest lg (pre @ (k, cur) # post) (Some k0) = Inr (Some k)"
proof (induction pre arbitrary: k0 c0)
  case Nil
  then have "logs_get lg k = Some cur"
    using assms by (auto intro: logs_get_member)
  with Nil show ?case
    by (simp add: isAfter_def reduce_latest_keep)
next
  case (Cons p pre)
  obtain a e where p: "p = (a, e)" by (cases p)
  with Cons.prems have ae: "logs_get lg a = Some e"
    using assms by (auto intro: logs_get_member)
  from Cons.prems p have lt: "timestamp e < timestamp cur" by simp
  from Cons.prems have sub: "set (pre @ (k, cur) # post) \<subseteq> set lg" by simp
  from Cons.prems have pre: "\<forall>e \<in> set pre. timestamp (snd e) < timestamp cur" by simp
  show ?case
  proof (cases "isAfter (timestamp e) (timestamp c0)")
    case True
    have "reduce_latest lg (pre @ (k, cur) # post) (Some a) = Inr (Some k)"
      using sub ae lt pre Cons.prems(5) by (rule Cons.IH)
    with True p Cons.prems(2) show ?thesis by simp
  next
    case False
    have "reduce_latest lg (pre @ (k, cur) # post) (Some k0) = Inr (Some k)"
      using sub Cons.prems(2) Cons.prems(3) pre Cons.prems(5) by (rule Cons.IH)
    with False p Cons.prems(2) show ?thesis by simp
  qed
qed

lemma reduce_latest_first_max:
  assumes "logs_ok lg" and "lg = pre @ (k, cur) # post"
    and "\<forall>e \<in> set pre. timestamp (snd e) < timestamp cur"
    and "\<forall>e \<in> set post. timestamp (snd e) \<le> timestamp cur"
  shows "reduce_latest lg lg None = Inr (Some k)"
proof (cases pre)
  case Nil
  with assms have "logs_get lg k = Some cur"
    by (auto intro: logs_get_member)
  then have "reduce_latest lg post (Some k) = Inr (Some k)"
    using assms(4) by (rule reduce_latest_keep)
  with Nil assms(2) show ?thesis by simp
next
  case (Cons p pre')
  obtain a e where p: "p = (a, e)" by (cases p)
  with Cons assms have ae: "logs_get lg a = Some e"
    by (auto intro: logs_get_member)
  have "reduce_latest lg (pre' @ (k, cur) # post) (Some a) = Inr (Some k)"
  proof (rule reduce_latest_switch [OF assms(1) _ ae])
    show "set (pre' @ (k, cur) # post) \<subseteq> set lg"
      using assms(2) Cons by auto
    show "timestamp e < timestamp cur"
      using assms(3) Cons p by simp
    show "\<forall>e \<in> set pre'. timestamp (snd e) < timestamp cur"
      using assms(3) Cons by simp
    show "\<forall>e \<in> set post. timestamp (snd e) \<le> timestamp cur"
      by (rule assms(4))
  qed
  then have "reduce_latest lg ((a, e) # pre' @ (k, cur) # post) None = Inr (Some k)"
    by simp
  with Cons p assms(2) show ?thesis by simp
qed

text \<open>A non-empty log object splits at the first entry that has the latest timestamp.\<close>

lemma first_latest_split:
  assumes "lg \<noteq> []"
  shows "\<exists>pre k cur post. lg = pre @ (k, cur) # post
      \<and> (\<forall>e \<in> set pre. timestamp (snd e) < timestamp cur)
      \<and> (\<forall>e \<in> set post. timestamp (snd e) \<le> timestamp cur)"
proof -
  define m where "m = Max (timestamp ` snd ` set lg)"
  have "m \<in> timestamp ` snd ` set lg"
    unfolding m_def using assms by (intro Max_in) auto
  then obtain x where x: "x \<in> set lg" "timestamp (snd x) = m"
    by auto
  have le: "timestamp (snd y) \<le> m" if "y \<in> set lg" for y
    unfolding m_def using that by (intro Max_ge) auto
  from x have "\<exists>x \<in> set lg. timestamp (snd x) = m"
    by blast
  from split_list_first_prop [where P = "\<lambda>x. timestamp (snd x) = m", OF this]
  obtain pre x' post where sp: "lg = pre @ x' # post" "timestamp (snd x') = m"
      "\<forall>y \<in> set pre. timestamp (snd y) \<noteq> m"
    by auto
  have "\<forall>e \<in> set pre. timestamp (snd e) < timestamp (snd x')"
  proof
    fix e assume e: "e \<in> set pre"
    with sp(1) have "timestamp (snd e) \<le> m" by (intro le) simp
    moreover from e sp(3) have "timestamp (snd e) \<noteq> m" by blast
    ultimately show "timestamp (snd e) < timestamp (snd x')"
      unfolding sp(2) by simp
  qed
  moreover have "\<forall>e \<in> set post. timestamp (snd e) \<le> timestamp (snd x')"
    unfolding sp(2) using sp(1) by (auto intro: le)
  moreover have "lg = pre @ (fst x', snd x') # post"
    using sp(1) by simp
  ultimately show ?thesis
    by blast
qed

lemma find_first:
  "P x \<Longrightarrow> \<forall>e \<in> set pre. \<not> P e \<Longrightarrow> find P (pre @ x # post) = Some x"
  by (induction pre) auto

text \<open>
  C6. \<open>getLastStep(id)\<close> never throws. It returns null exactly when the id is unknown or
  the job has no log entry. Otherwise it returns a stage that has an entry for the job and
  whose timestamp no entry of the job exceeds, timestamps being compared as moments in time
  (\<open>isAfter\<close>), not as text.
\<close>

theorem getLastStep_latest:
  assumes "record_logs_ok s hash"
  shows "(getLastStep s hash = Inr None \<longleftrightarrow>
            getRecord s hash = None \<or> map_option logs (getRecord s hash) = Some [])
       \<and> (\<forall>r. getRecord s hash = Some r \<and> logs r \<noteq> [] \<longrightarrow>
            (\<exists>k cur. getLastStep s hash = Inr (Some k)
               \<and> getStepLogs s hash k = Some cur
               \<and> (\<forall>e \<in> set (logs r). timestamp (snd e) \<le> timestamp cur)))"
proof -
  have main: "\<exists>k cur. getLastStep s hash = Inr (Some k)
               \<and> getStepLogs s hash k = Some cur
               \<and> (\<forall>e \<in> set (logs r). timestamp (snd e) \<le> timestamp cur)"
    if r: "getRecord s hash = Some r" and ne: "logs r \<noteq> []" for r
  proof -
    from r assms have ok: "logs_ok (logs r)"
      by (simp add: record_logs_ok_def getRecord_def)
    from first_latest_split [OF ne] obtain pre k cur post where
      sp: "logs r = pre @ (k, cur) # post"
      and lt: "\<forall>e \<in> set pre. timestamp (snd e) < timestamp cur"
      and le: "\<forall>e \<in> set post. timestamp (snd e) \<le> timestamp cur"
      by blast
    have "reduce_latest (logs r) (logs r) None = Inr (Some k)"
      using ok sp lt le by (rule reduce_latest_first_max)
    with r ne have "getLastStep s hash = Inr (Some k)"
      by (simp add: getLastStep_def getRecord_def)
    moreover have "getStepLogs s hash k = Some cur"
      using r ok sp by (simp add: getStepLogs_def getRecord_def logs_get_member)
    moreover have "\<forall>e \<in> set (logs r). timestamp (snd e) \<le> timestamp cur"
      unfolding sp using lt le by (auto intro: less_imp_le)
    ultimately show ?thesis by blast
  qed
  have none: "getLastStep s hash = Inr None \<longleftrightarrow>
      getRecord s hash = None \<or> map_option logs (getRecord s hash) = Some []"
  proof (cases "getRecord s hash")
    case None
    then show ?thesis by (simp add: getLastStep_def getRecord_def)
  next
    case (Some r)
    show ?thesis
    proof (cases "logs r = []")
      case True
      with Some show ?thesis by (simp add: getLastStep_def getRecord_def)
    next
      case False
      from main [OF Some False] Some False show ?thesis by auto
    qed
  qed
  from none main show ?thesis by blast
qed

theorem getLastStep_latest_witness:
  "record_logs_ok (records (run [StartTracking ''h1'' ''doc.pdf'', AddAction ''h1'' CLEANUP False 30,
       AddAction ''h1'' CLASSIFY False 100, AddAction ''h1'' TAGGING False 9] (init []))) ''h1''
   \<and> getLastStep (records (run [StartTracking ''h1'' ''doc.pdf'', AddAction ''h1'' CLEANUP False 30,
       AddAction ''h1'' CLASSIFY False 100, AddAction ''h1'' TAGGING False 9] (init []))) ''h1''
     = Inr (Some CLASSIFY)
   \<and> record_logs_ok (records (run [StartTracking ''h1'' ''doc.pdf''] (init []))) ''h1''
   \<and> getLastStep (records (run [StartTracking ''h1'' ''doc.pdf''] (init []))) ''h1'' = Inr None
   \<and> record_logs_ok (records (run [StartTracking ''h1'' ''doc.pdf''] (init []))) ''h2''
   \<and> getLastStep (records (run [StartTracking ''h1'' ''doc.pdf''] (init []))) ''h2'' = Inr None"
proof -
  let ?s = "records (run [StartTracking ''h1'' ''doc.pdf'', AddAction ''h1'' CLEANUP False 30,
       AddAction ''h1'' CLASSIFY False 100, AddAction ''h1'' TAGGING False 9] (init []))"
  let ?t = "records (run [StartTracking ''h1'' ''doc.pdf''] (init []))"
  have a: "record_logs_ok ?s ''h1''"
    by (simp add: record_logs_ok_def logs_ok_def startTracking_def init_def addAction_def)
  have b: "record_logs_ok ?t ''h1''"
    by (simp add: record_logs_ok_def logs_ok_def startTracking_def init_def)
  have c: "record_logs_ok ?t ''h2''"
    by (simp add: record_logs_ok_def startTracking_def init_def)
  have "getLastStep ?s ''h1'' = Inr (Some CLASSIFY)"
    by (simp add: getLastStep_def startTracking_def init_def addAction_def isAfter_def logs_get_def)
  moreover have "getRecord ?t ''h1'' = None
      \<or> map_option logs (getRecord ?t ''h1'') = Some []"
    by (simp add: getRecord_def startTracking_def init_def)
  moreover have "getRecord ?t ''h2'' = None
      \<or> map_option logs (getRecord ?t ''h2'') = Some []"
    by (simp add: getRecord_def startTracking_def init_def)
  moreover note getLastStep_latest [OF a] getLastStep_latest [OF b] getLastStep_latest [OF c]
  ultimately show ?thesis
    using a b c by blast
qed

text \<open>
  C10. For a registered id, \<open>getLastStep(id)\<close> is the first entry, in the order of the log
  object, among those whose timestamp is the latest of the job: when several entries share
  the latest timestamp, the one inserted first is returned, since \<open>isAfter\<close> is strict and
  an equal timestamp never replaces the candidate.
\<close>

theorem getLastStep_tie_first:
  assumes "getRecord s hash = Some r" and "logs_ok (logs r)"
  shows "getLastStep s hash =
     Inr (map_option fst
       (find (\<lambda>e. \<forall>e' \<in> set (logs r). timestamp (snd e') \<le> timestamp (snd e)) (logs r)))"
proof (cases "logs r = []")
  case True
  with assms show ?thesis by (simp add: getLastStep_def getRecord_def)
next
  case False
  from first_latest_split [OF False] obtain pre k cur post where
    sp: "logs r = pre @ (k, cur) # post"
    and lt: "\<forall>e \<in> set pre. timestamp (snd e) < timestamp cur"
    and le: "\<forall>e \<in> set post. timestamp (snd e) \<le> timestamp cur"
    by blast
  have "reduce_latest (logs r) (logs r) None = Inr (Some k)"
    using assms(2) sp lt le by (rule reduce_latest_first_max)
  with assms(1) False have a: "getLastStep s hash = Inr (Some k)"
    by (simp add: getLastStep_def getRecord_def)
  let ?P = "\<lambda>e. \<forall>e' \<in> set (logs r). timestamp (snd e') \<le> timestamp (snd e)"
  have "?P (k, cur)"
    unfolding sp using lt le by (auto intro: less_imp_le)
  moreover have "\<forall>e \<in> set pre. \<not> ?P e"
    unfolding sp using lt by (auto simp: not_le)
  ultimately have "find ?P (pre @ (k, cur) # post) = Some (k, cur)"
    by (rule find_first)
  then have "find ?P (logs r) = Some (k, cur)"
    using sp by simp
  with a show ?thesis by simp
qed

theorem getLastStep_tie_first_witness:
  "map_option logs (getRecord (records (run [StartTracking ''h1'' ''doc.pdf'',
       AddAction ''h1'' CLEANUP False 3, AddAction ''h1'' CLASSIFY False 7,
       AddAction ''h1'' TAGGING False 7] (init []))) ''h1'') =
     Some [(CLEANUP, \<lparr>timestamp = 3, completed = False, error = None\<rparr>),
           (CLASSIFY, \<lparr>timestamp = 7, completed = False, error = None\<rparr>),
           (TAGGING, \<lparr>timestamp = 7, completed = False, error = None\<rparr>)]
   \<and> logs_ok [(CLEANUP, \<lparr>timestamp = 3, completed = False, error = None\<rparr>),
           (CLASSIFY, \<lparr>timestamp = 7, completed = False, error = None\<rparr>),
           (TAGGING, \<lparr>timestamp = 7, completed = False, error = None\<rparr>)]
   \<and> getLastStep (records (run [StartTracking ''h1'' ''doc.pdf'',
       AddAction ''h1'' CLEANUP False 3, AddAction ''h1'' CLASSIFY False 7,
       AddAction ''h1'' TAGGING False 7] (init []))) ''h1'' = Inr (Some CLASSIFY)"
proof -
  let ?s = "records (run [StartTracking ''h1'' ''doc.pdf'',
       AddAction ''h1'' CLEANUP False 3, AddAction ''h1'' CLASSIFY False 7,
       AddAction ''h1'' TAGGING False 7] (init []))"
  let ?lg = "[(CLEANUP, \<lparr>timestamp = 3, completed = False, error = None\<rparr>),
           (CLASSIFY, \<lparr>timestamp = 7, completed = False, error = None\<rparr>),
           (TAGGING, \<lparr>timestamp = 7, completed = False, error = None\<rparr>)]"
  let ?r = "\<lparr> id_rec = ''h1'', tags = 0, classification = None, formatted = False,
              newPath = None, newName = None, originalName = ''doc.pdf'',
              logs = ?lg, status = St_queued, file_rec = None \<rparr>"
  have a: "getRecord ?s ''h1'' = Some ?r"
    by (simp add: getRecord_def startTracking_def init_def addAction_def)
  have b: "logs_ok (logs ?r)"
    by (simp add: logs_ok_def)
  from getLastStep_tie_first [OF a b] a b show ?thesis
    by simp
qed

section \<open>Tags\<close>

text \<open>
  The invariant: every record refers to an array of the store, and that array repeats no
  tag. Each step that meets its condition keeps it.
\<close>

lemma exec_tags_distinct:
  assumes "call_ok c w"
    and "\<forall>h r. records w h = Some r \<longrightarrow> tags r < length (arrays w) \<and> distinct (arrays w ! tags r)"
  shows "\<forall>h r. records (exec c w) h = Some r \<longrightarrow>
           tags r < length (arrays (exec c w)) \<and> distinct (arrays (exec c w) ! tags r)"
proof (cases c)
  case (StartTracking hash name)
  show ?thesis
  proof (cases "records w hash = None")
    case True
    have "tags r < length (arrays w @ [[]]) \<and> distinct ((arrays w @ [[]]) ! tags r)"
      if "((records w)(hash \<mapsto> new)) h = Some r" and "tags new = length (arrays w)" for h r new
    proof (cases "h = hash")
      case True
      with that show ?thesis by simp
    next
      case False
      with that have "records w h = Some r" by simp
      with assms(2) have "tags r < length (arrays w)" "distinct (arrays w ! tags r)"
        by blast+
      then show ?thesis by (simp add: nth_append)
    qed
    with True StartTracking show ?thesis
      by (simp add: startTracking_def)
  next
    case False
    with StartTracking assms(2) show ?thesis
      by (auto simp: startTracking_def)
  qed
next
  case (SetFile hash f)
  with assms(2) show ?thesis by (auto simp: setFile_def split: option.splits if_splits)
next
  case (SetStatus hash st)
  with assms(2) show ?thesis by (auto simp: setStatus_def split: option.splits if_splits)
next
  case (AddAction hash step c now)
  with assms(2) show ?thesis
    by (auto simp: addAction_def Let_def split: option.splits if_splits)
next
  case (AddTag hash tag)
  show ?thesis
  proof (cases "records w hash")
    case None
    with AddTag assms(2) show ?thesis by (simp add: addTag_def)
  next
    case (Some rc)
    show ?thesis
    proof (cases "tag \<in> set (arrays w ! tags rc)")
      case True
      with Some AddTag assms(2) show ?thesis by (simp add: addTag_def)
    next
      case False
      from Some assms(2) have d: "distinct (arrays w ! tags rc)" by blast
      have w': "exec c w = w\<lparr>arrays := (arrays w)[tags rc := arrays w ! tags rc @ [tag]]\<rparr>"
        using AddTag Some False by (simp add: addTag_def)
      have "tags r < length (arrays w)
          \<and> distinct ((arrays w)[tags rc := arrays w ! tags rc @ [tag]] ! tags r)"
        if "records w h = Some r" for h r
      proof -
        from that assms(2) have len: "tags r < length (arrays w)"
          and dr: "distinct (arrays w ! tags r)"
          by blast+
        show ?thesis
        proof (cases "tags r = tags rc")
          case True
          with len d False show ?thesis by simp
        next
          case neq: False
          with len dr show ?thesis by simp
        qed
      qed
      then show ?thesis
        unfolding w' by simp
    qed
  qed
next
  case (SetTags hash ref)
  with assms show ?thesis by (auto simp: setTags_def split: option.splits if_splits)
next
  case (SetClassification hash c)
  with assms(2) show ?thesis
    by (auto simp: setClassification_def split: option.splits if_splits)
next
  case (SetFormatted hash b)
  with assms(2) show ?thesis by (auto simp: setFormatted_def split: option.splits if_splits)
next
  case (SetNewPath hash p)
  with assms(2) show ?thesis by (auto simp: setNewPath_def split: option.splits if_splits)
next
  case (SetNewName hash n)
  with assms(2) show ?thesis by (auto simp: setNewName_def split: option.splits if_splits)
next
  case (AddError hash act msg stk now)
  with assms(2) show ?thesis by (auto simp: addError_def split: option.splits if_splits)
next
  case (CallerNewArray xs)
  have "tags r < length (arrays w @ [xs]) \<and> distinct ((arrays w @ [xs]) ! tags r)"
    if "records w h = Some r" for h r
  proof -
    from that assms(2) have "tags r < length (arrays w)" "distinct (arrays w ! tags r)"
      by blast+
    then show ?thesis by (simp add: nth_append)
  qed
  with CallerNewArray show ?thesis by simp
next
  case (CallerWriteArray ref xs)
  with assms(1) have dx: "distinct xs" and rl: "ref < length (arrays w)" by simp_all
  have "tags r < length (arrays w) \<and> distinct ((arrays w)[ref := xs] ! tags r)"
    if "records w h = Some r" for h r
  proof -
    from that assms(2) have "tags r < length (arrays w)" "distinct (arrays w ! tags r)"
      by blast+
    with dx rl show ?thesis by (simp add: nth_list_update)
  qed
  with CallerWriteArray show ?thesis by simp
qed

lemma run_tags_distinct:
  "calls_ok cs w
   \<Longrightarrow> \<forall>h r. records w h = Some r \<longrightarrow> tags r < length (arrays w) \<and> distinct (arrays w ! tags r)
   \<Longrightarrow> \<forall>h r. records (run cs w) h = Some r \<longrightarrow>
         tags r < length (arrays (run cs w)) \<and> distinct (arrays (run cs w) ! tags r)"
proof (induction cs arbitrary: w)
  case Nil
  then show ?case by simp
next
  case (Cons c cs)
  from Cons.prems have ok: "call_ok c w" and rest: "calls_ok cs (exec c w)"
    by simp_all
  have "\<forall>h r. records (exec c w) h = Some r \<longrightarrow>
           tags r < length (arrays (exec c w)) \<and> distinct (arrays (exec c w) ! tags r)"
    using ok Cons.prems(2) by (rule exec_tags_distinct)
  with rest have "\<forall>h r. records (run cs (exec c w)) h = Some r \<longrightarrow>
         tags r < length (arrays (run cs (exec c w)))
         \<and> distinct (arrays (run cs (exec c w)) ! tags r)"
    by (rule Cons.IH)
  then show ?case by simp
qed

lemma count_list_distinct: "distinct xs \<Longrightarrow> x \<in> set xs \<Longrightarrow> count_list xs x = 1"
  by (induction xs) (auto simp: count_list_0_iff)

text \<open>
  C7. Take any state \<open>w\<close> reached from a new manager, beside any arrays \<open>hp\<close> of the
  caller, by a sequence of calls of the manager and array steps of the caller in which each
  \<open>setTags\<close> is handed an array that repeats no tag when it is passed, and each change
  the caller makes to an array leaves it without a repeated tag. Then the tag array of every
  record repeats no tag, also when records share one array or share it with the caller. In
  such a state \<open>addTag(id, t)\<close> with \<open>t\<close> present changes nothing; after
  \<open>addTag(id, t)\<close> the tag \<open>t\<close> occurs exactly once and the array still repeats no tag;
  and every record that shares the array of \<open>id\<close> shows the same tags as \<open>id\<close>.
  \<open>setTags(id, a)\<close> stores the array \<open>a\<close> itself, for every \<open>a\<close>: the record refers to
  \<open>a\<close>, no array is copied or changed, and the tags of the record are the contents of
  \<open>a\<close> as they are.
\<close>

theorem tags_distinct_invariant:
  assumes "calls_ok cs (init hp)"
    and "w = run cs (init hp)"
    and "getRecord (records w) hash = Some r"
  shows "tags r < length (arrays w)
       \<and> getTags w hash = Some (arrays w ! tags r)
       \<and> distinct (arrays w ! tags r)
       \<and> (tag \<in> set (arrays w ! tags r) \<longrightarrow> addTag hash tag w = w)
       \<and> (\<exists>ts. getTags (addTag hash tag w) hash = Some ts
             \<and> distinct ts \<and> count_list ts tag = 1)
       \<and> (\<forall>h' r'. getRecord (records w) h' = Some r' \<and> tags r' = tags r \<longrightarrow>
             getTags (addTag hash tag w) h' = getTags (addTag hash tag w) hash)
       \<and> getRecord (records (exec (SetTags hash ref) w)) hash = Some (r\<lparr>tags := ref\<rparr>)
       \<and> arrays (exec (SetTags hash ref) w) = arrays w
       \<and> getTags (exec (SetTags hash ref) w) hash = Some (arrays w ! ref)"
proof -
  have "\<forall>h r. records (init hp) h = Some r \<longrightarrow>
          tags r < length (arrays (init hp)) \<and> distinct (arrays (init hp) ! tags r)"
    by (simp add: init_def)
  with assms(1) have "\<forall>h r. records (run cs (init hp)) h = Some r \<longrightarrow>
         tags r < length (arrays (run cs (init hp)))
         \<and> distinct (arrays (run cs (init hp)) ! tags r)"
    by (rule run_tags_distinct)
  then have inv: "\<forall>h r. records w h = Some r \<longrightarrow>
         tags r < length (arrays w) \<and> distinct (arrays w ! tags r)"
    unfolding assms(2) .
  from assms(3) have sr: "records w hash = Some r"
    by (simp add: getRecord_def)
  from inv sr have len: "tags r < length (arrays w)" and d: "distinct (arrays w ! tags r)"
    by blast+
  have gt: "getTags w hash = Some (arrays w ! tags r)"
    using sr by (simp add: getTags_def)
  have noop: "addTag hash tag w = w" if "tag \<in> set (arrays w ! tags r)"
    using that sr by (simp add: addTag_def)
  have recs: "records (addTag hash tag w) = records w"
    using sr by (simp add: addTag_def)
  have after: "\<exists>ts. getTags (addTag hash tag w) hash = Some ts
             \<and> distinct ts \<and> count_list ts tag = 1"
  proof (cases "tag \<in> set (arrays w ! tags r)")
    case True
    with d have "count_list (arrays w ! tags r) tag = 1"
      by (simp add: count_list_distinct)
    with noop [OF True] gt d show ?thesis by simp
  next
    case False
    then have "count_list (arrays w ! tags r @ [tag]) tag = 1"
      by (simp add: count_list_0_iff)
    moreover from False d have "distinct (arrays w ! tags r @ [tag])"
      by simp
    moreover from False sr len
    have "getTags (addTag hash tag w) hash = Some (arrays w ! tags r @ [tag])"
      by (simp add: addTag_def getTags_def)
    ultimately show ?thesis by simp
  qed
  have shared: "getTags (addTag hash tag w) h' = getTags (addTag hash tag w) hash"
    if "getRecord (records w) h' = Some r'" and "tags r' = tags r" for h' r'
    using that sr by (simp add: getTags_def recs getRecord_def)
  have st: "getRecord (records (exec (SetTags hash ref) w)) hash = Some (r\<lparr>tags := ref\<rparr>)"
    "arrays (exec (SetTags hash ref) w) = arrays w"
    "getTags (exec (SetTags hash ref) w) hash = Some (arrays w ! ref)"
    using sr by (simp_all add: setTags_def getRecord_def getTags_def)
  from len gt d noop after shared st show ?thesis by blast
qed

theorem tags_distinct_invariant_witness:
  "calls_ok [StartTracking ''h1'' ''doc.pdf'', StartTracking ''h2'' ''memo.md'',
       SetTags ''h1'' 0, SetTags ''h2'' 0, AddTag ''h1'' ''z'',
       CallerWriteArray 0 [''a'', ''z'', ''q'']] (init [[''a'']])
   \<and> getTags (run [StartTracking ''h1'' ''doc.pdf'', StartTracking ''h2'' ''memo.md'',
       SetTags ''h1'' 0, SetTags ''h2'' 0, AddTag ''h1'' ''z''] (init [[''a'']])) ''h2''
     = Some [''a'', ''z'']
   \<and> getTags (run [StartTracking ''h1'' ''doc.pdf'', StartTracking ''h2'' ''memo.md'',
       SetTags ''h1'' 0, SetTags ''h2'' 0, AddTag ''h1'' ''z'',
       CallerWriteArray 0 [''a'', ''z'', ''q'']] (init [[''a'']])) ''h1''
     = Some [''a'', ''z'', ''q'']
   \<and> getTags (run [StartTracking ''h1'' ''doc.pdf'', StartTracking ''h2'' ''memo.md'',
       SetTags ''h1'' 0, SetTags ''h2'' 0, AddTag ''h1'' ''z'',
       CallerWriteArray 0 [''a'', ''z'', ''q'']] (init [[''a'']])) ''h2''
     = Some [''a'', ''z'', ''q'']
   \<and> distinct [''a'', ''z'', ''q'']
   \<and> addTag ''h2'' ''z'' (run [StartTracking ''h1'' ''doc.pdf'', StartTracking ''h2'' ''memo.md'',
       SetTags ''h1'' 0, SetTags ''h2'' 0, AddTag ''h1'' ''z'',
       CallerWriteArray 0 [''a'', ''z'', ''q'']] (init [[''a'']]))
     = run [StartTracking ''h1'' ''doc.pdf'', StartTracking ''h2'' ''memo.md'',
       SetTags ''h1'' 0, SetTags ''h2'' 0, AddTag ''h1'' ''z'',
       CallerWriteArray 0 [''a'', ''z'', ''q'']] (init [[''a'']])"
proof -
  let ?pre = "[StartTracking ''h1'' ''doc.pdf'', StartTracking ''h2'' ''memo.md'',
       SetTags ''h1'' 0, SetTags ''h2'' 0, AddTag ''h1'' ''z'']"
  let ?cs = "[StartTracking ''h1'' ''doc.pdf'', StartTracking ''h2'' ''memo.md'',
       SetTags ''h1'' 0, SetTags ''h2'' 0, AddTag ''h1'' ''z'',
       CallerWriteArray 0 [''a'', ''z'', ''q'']]"
  let ?w = "run ?cs (init [[''a'']])"
  let ?r = "\<lparr> id_rec = ''h2'', tags = 0, classification = None,
              formatted = False, newPath = None, newName = None, originalName = ''memo.md'',
              logs = [], status = St_queued, file_rec = None \<rparr>"
  have a: "calls_ok ?cs (init [[''a'']])"
    by (simp add: init_def startTracking_def setTags_def addTag_def)
  have b: "getRecord (records ?w) ''h2'' = Some ?r"
    by (simp add: getRecord_def init_def startTracking_def setTags_def addTag_def)
  have c: "arrays ?w ! 0 = [''a'', ''z'', ''q'']"
    by (simp add: init_def startTracking_def setTags_def addTag_def)
  have d: "getTags ?w ''h1'' = Some [''a'', ''z'', ''q'']"
    by (simp add: getTags_def init_def startTracking_def setTags_def addTag_def)
  have e: "getTags (run ?pre (init [[''a'']])) ''h2'' = Some [''a'', ''z'']"
    by (simp add: getTags_def init_def startTracking_def setTags_def addTag_def)
  from tags_distinct_invariant [OF a refl b, of "''z''"] c
  have "getTags ?w ''h2'' = Some [''a'', ''z'', ''q'']"
    and "distinct [''a'', ''z'', ''q'']"
    and "addTag ''h2'' ''z'' ?w = ?w"
    by simp_all
  with a d e show ?thesis
    by simp
qed

text \<open>
  Without the condition on \<open>setTags\<close> the invariant fails: a caller's array that repeats a
  tag, handed to \<open>setTags\<close>, leaves the record with that tag twice; all steps are calls of
  the manager.
\<close>

theorem setTags_duplicates_counterexample:
  "getTags (run [StartTracking ''h1'' ''doc.pdf'', SetTags ''h1'' 0]
       (init [[''x'', ''x'']])) ''h1'' = Some [''x'', ''x'']
   \<and> \<not> distinct [''x'', ''x'']"
  by (simp add: getTags_def init_def startTracking_def setTags_def)

end
